theory Spec2Isabelle
  imports Main "HOL-Library.Multiset" "HOL-Library.Product_Lexorder"
begin

section \<open>Data model of \<^verbatim>\<open>src/App.jsx\<close>\<close>

text \<open>
  A room is the object literal \<^verbatim>\<open>{ number, booked }\<close> pushed by \<^verbatim>\<open>initializeRooms\<close>.
  The inventory is the object \<^verbatim>\<open>rooms\<close> whose keys are floor numbers and whose values
  are arrays of rooms; reading a key that is absent yields \<^verbatim>\<open>undefined\<close>, here \<open>None\<close>.
  An allocation entry is the literal \<^verbatim>\<open>{ floor, index }\<close>.
\<close>

record room =
  number :: int
  booked :: bool

type_synonym inventory = "nat \<rightharpoonup> room list"

record roomref =
  floor :: nat
  index :: int

text \<open>The only exception the code can raise: a property access on \<^verbatim>\<open>undefined\<close>.\<close>

datatype error = TypeError

section \<open>\<^verbatim>\<open>initializeRooms\<close>\<close>

text \<open>The body of the outer loop: the array built for one floor.\<close>

definition floorRooms :: "nat \<Rightarrow> room list" where
  "floorRooms fl =
     (let roomCount = (if fl = 10 then 7 else 10);
          base = (if fl = 10 then 1000 else int fl * 100)
      in map (\<lambda>i. \<lparr>number = base + i, booked = False\<rparr>) [1..roomCount])"

definition initializeRooms :: inventory where
  "initializeRooms = foldl (\<lambda>rooms fl. rooms(fl \<mapsto> floorRooms fl)) Map.empty [1..<11]"

section \<open>Array helpers\<close>

text \<open>\<^verbatim>\<open>Array.prototype.findIndex\<close>: the first index whose element satisfies the
  predicate, \<open>-1\<close> when there is none.\<close>

fun findIndex :: "('a \<Rightarrow> bool) \<Rightarrow> 'a list \<Rightarrow> int" where
  "findIndex P [] = -1"
| "findIndex P (x # xs) =
     (if P x then 0 else (let k = findIndex P xs in if k < 0 then -1 else k + 1))"

text \<open>\<^verbatim>\<open>Array.prototype.slice(start, end)\<close> on integer arguments: a negative argument
  counts from the end, and both are clamped to the array.\<close>

definition slice :: "'a list \<Rightarrow> int \<Rightarrow> int \<Rightarrow> 'a list" where
  "slice xs start end' =
     (let len = int (length xs);
          k = (if start < 0 then max (len + start) 0 else min start len);
          final = (if end' < 0 then max (len + end') 0 else min end' len)
      in take (nat (final - k)) (drop (nat k) xs))"

text \<open>\<^verbatim>\<open>Array.prototype.sort(cmp)\<close> as a stable insertion sort: an element goes in
  front of the first element it does not compare greater than.\<close>

fun js_insert :: "('a \<Rightarrow> 'a \<Rightarrow> int) \<Rightarrow> 'a \<Rightarrow> 'a list \<Rightarrow> 'a list" where
  "js_insert cmp x [] = [x]"
| "js_insert cmp x (y # ys) = (if cmp x y \<le> 0 then x # y # ys else y # js_insert cmp x ys)"

definition js_sort :: "('a \<Rightarrow> 'a \<Rightarrow> int) \<Rightarrow> 'a list \<Rightarrow> 'a list" where
  "js_sort cmp xs = foldr (js_insert cmp) xs []"

text \<open>
  A second implementation of the same call, the left-to-right insertion sort engines run
  on short arrays: each element is moved in front of the first element it compares
  smaller than.
\<close>

fun insertLast :: "('a \<Rightarrow> 'a \<Rightarrow> int) \<Rightarrow> 'a \<Rightarrow> 'a list \<Rightarrow> 'a list" where
  "insertLast cmp x [] = [x]"
| "insertLast cmp x (y # ys) = (if cmp x y < 0 then x # y # ys else y # insertLast cmp x ys)"

definition insertionSort :: "('a \<Rightarrow> 'a \<Rightarrow> int) \<Rightarrow> 'a list \<Rightarrow> 'a list" where
  "insertionSort cmp xs = foldl (\<lambda>acc x. insertLast cmp x acc) [] xs"

text \<open>
  What the language guarantees of \<^verbatim>\<open>sort\<close> for a comparator: the result is a
  rearrangement of the array, no element is followed by one it compares greater than, and
  elements that compare equal keep their order.
\<close>

definition stableSort :: "(('a \<Rightarrow> 'a \<Rightarrow> int) \<Rightarrow> 'a list \<Rightarrow> 'a list) \<Rightarrow> ('a \<Rightarrow> 'a \<Rightarrow> int) \<Rightarrow> bool" where
  "stableSort srt cmp \<longleftrightarrow>
     (\<forall>xs. mset (srt cmp xs) = mset xs
         \<and> sorted_wrt (\<lambda>a b. cmp a b \<le> 0) (srt cmp xs)
         \<and> (\<forall>x. filter (\<lambda>y. cmp x y = 0) (srt cmp xs) = filter (\<lambda>y. cmp x y = 0) xs))"

section \<open>\<^verbatim>\<open>findBestAllocation\<close>\<close>

text \<open>\<^verbatim>\<open>rooms[floor].filter((room) => !room.booked)\<close> on an array.\<close>

definition unbooked :: "room list \<Rightarrow> room list" where
  "unbooked rs = filter (\<lambda>room. \<not> booked room) rs"

text \<open>The entry pushed for a room of floor \<open>fl\<close>, whose array is \<open>rs\<close>.\<close>

definition mkRef :: "nat \<Rightarrow> room list \<Rightarrow> room \<Rightarrow> roomref" where
  "mkRef fl rs rm = \<lparr>floor = fl, index = findIndex (\<lambda>r. number r = number rm) rs\<rparr>"

text \<open>The comparator \<^verbatim>\<open>(a, b) => a.number - b.number\<close>.\<close>

definition cmpNumber :: "room \<Rightarrow> room \<Rightarrow> int" where
  "cmpNumber a b = number a - number b"

text \<open>
  Priority 1, the loop over \<^verbatim>\<open>floor = 1 .. 10\<close>, here over the list of floors still to
  visit. \<open>Inr None\<close> means the loop ended without returning. The sort is a parameter:
  the source calls the engine's \<^verbatim>\<open>sort\<close>.
\<close>

fun sameFloor ::
  "((room \<Rightarrow> room \<Rightarrow> int) \<Rightarrow> room list \<Rightarrow> room list) \<Rightarrow> inventory \<Rightarrow> int \<Rightarrow> nat list
     \<Rightarrow> error + roomref list option" where
  "sameFloor srt rooms num [] = Inr None"
| "sameFloor srt rooms num (fl # fls) =
     (case rooms fl of
        None \<Rightarrow> Inl TypeError
      | Some rs \<Rightarrow>
          (let available = unbooked rs in
           if int (length available) \<ge> num then
             (let sortedAvailable = srt cmpNumber available
              in Inr (Some (map (mkRef fl rs) (slice sortedAvailable 0 num))))
           else sameFloor srt rooms num fls))"

text \<open>The number of available rooms the floor comparator reads;
  it is only evaluated on floors that are present.\<close>

definition availableCount :: "inventory \<Rightarrow> nat \<Rightarrow> nat" where
  "availableCount rooms fl = (case rooms fl of None \<Rightarrow> 0 | Some rs \<Rightarrow> length (unbooked rs))"

text \<open>The comparator given to \<^verbatim>\<open>floors.sort\<close>.\<close>

definition cmpFloors :: "inventory \<Rightarrow> nat \<Rightarrow> nat \<Rightarrow> int" where
  "cmpFloors rooms a b =
     (let availableA = int (availableCount rooms a);
          availableB = int (availableCount rooms b)
      in if availableB \<noteq> availableA then availableB - availableA else int a - int b)"

text \<open>The inner loop \<^verbatim>\<open>for (const room of available)\<close> with its \<^verbatim>\<open>break\<close>.\<close>

fun pushRooms :: "nat \<Rightarrow> room list \<Rightarrow> int \<Rightarrow> room list \<Rightarrow> roomref list \<Rightarrow> roomref list" where
  "pushRooms fl rs num [] allocation = allocation"
| "pushRooms fl rs num (rm # rest) allocation =
     (if int (length allocation) < num
      then pushRooms fl rs num rest (allocation @ [mkRef fl rs rm])
      else allocation)"

text \<open>The outer loop \<^verbatim>\<open>for (const floor of floors)\<close> with its \<^verbatim>\<open>break\<close>.\<close>

fun walkFloors :: "inventory \<Rightarrow> int \<Rightarrow> nat list \<Rightarrow> roomref list \<Rightarrow> error + roomref list" where
  "walkFloors rooms num [] allocation = Inr allocation"
| "walkFloors rooms num (fl # fls) allocation =
     (case rooms fl of
        None \<Rightarrow> Inl TypeError
      | Some rs \<Rightarrow>
          (let allocation' = pushRooms fl rs num (unbooked rs) allocation
           in if int (length allocation') = num then Inr allocation'
              else walkFloors rooms num fls allocation'))"

text \<open>
  The whole routine, with the two calls of \<^verbatim>\<open>sort\<close> as parameters. The floor
  comparator reads \<^verbatim>\<open>rooms[a]\<close> for every floor it is given, so a floor that is
  absent makes the sort raise.
\<close>

definition findBestAllocationWith ::
  "((room \<Rightarrow> room \<Rightarrow> int) \<Rightarrow> room list \<Rightarrow> room list) \<Rightarrow>
   ((nat \<Rightarrow> nat \<Rightarrow> int) \<Rightarrow> nat list \<Rightarrow> nat list) \<Rightarrow> inventory \<Rightarrow> int \<Rightarrow> error + roomref list" where
  "findBestAllocationWith srtRooms srtFloors rooms num =
     (case sameFloor srtRooms rooms num [1..<11] of
        Inl e \<Rightarrow> Inl e
      | Inr (Some allocation) \<Rightarrow> Inr allocation
      | Inr None \<Rightarrow>
          (let floors = map (\<lambda>i. i + 1) [0..<10] in
           if \<not> list_all (\<lambda>fl. rooms fl \<noteq> None) floors then Inl TypeError
           else walkFloors rooms num (srtFloors (cmpFloors rooms) floors) []))"

definition findBestAllocation :: "inventory \<Rightarrow> int \<Rightarrow> error + roomref list" where
  "findBestAllocation rooms num = findBestAllocationWith js_sort js_sort rooms num"

section \<open>\<^verbatim>\<open>bookRooms\<close>\<close>

text \<open>
  One step of \<^verbatim>\<open>allocation.forEach\<close>:
  \<^verbatim>\<open>updatedRooms[room.floor][room.index].booked = true\<close>. The spread
  \<^verbatim>\<open>{ ...rooms }\<close> copies only the table of floors, so the room objects written here
  are the ones the current inventory holds. Reading a floor that is absent, or writing
  through an index outside the array, raises.
\<close>

definition markBooked :: "inventory \<Rightarrow> roomref \<Rightarrow> error + inventory" where
  "markBooked rooms r =
     (case rooms (floor r) of
        None \<Rightarrow> Inl TypeError
      | Some rs \<Rightarrow>
          if 0 \<le> index r \<and> index r < int (length rs)
          then Inr (rooms(floor r \<mapsto> rs[nat (index r) := (rs ! nat (index r))\<lparr>booked := True\<rparr>]))
          else Inl TypeError)"

text \<open>The \<^verbatim>\<open>forEach\<close> of lines 39-43: the error raised, if any, and the inventory
  as the writes made so far have left it.\<close>

fun applyAllocation :: "inventory \<Rightarrow> roomref list \<Rightarrow> error option \<times> inventory" where
  "applyAllocation rooms [] = (None, rooms)"
| "applyAllocation rooms (r # rest) =
     (case markBooked rooms r of
        Inl e \<Rightarrow> (Some e, rooms)
      | Inr rooms' \<Rightarrow> applyAllocation rooms' rest)"

text \<open>
  What a call of \<^verbatim>\<open>bookRooms\<close> does: the alert
  \<^verbatim>\<open>'You can book between 1 to 5 rooms at a time.'\<close>, the alert
  \<^verbatim>\<open>'Not enough rooms available to fulfill the booking.'\<close>, the call of
  \<^verbatim>\<open>setRooms\<close>, or an exception.
\<close>

datatype outcome = RangeAlert | NotEnoughAlert | RoomsSet | Raised error

text \<open>
  \<^verbatim>\<open>bookRooms\<close> on an integer: the outcome, the allocation computed (\<open>None\<close> when
  \<^verbatim>\<open>findBestAllocation\<close> was not called or raised) and the inventory afterwards.
\<close>

definition bookRooms :: "inventory \<Rightarrow> int \<Rightarrow> outcome \<times> roomref list option \<times> inventory" where
  "bookRooms rooms num =
     (if num < 1 \<or> num > 5 then (RangeAlert, None, rooms)
      else
        (case findBestAllocation rooms num of
           Inl e \<Rightarrow> (Raised e, None, rooms)
         | Inr allocation \<Rightarrow>
             if length allocation = 0 then (NotEnoughAlert, Some allocation, rooms)
             else
               (case applyAllocation rooms allocation of
                  (Some e, rooms') \<Rightarrow> (Raised e, Some allocation, rooms')
                | (None, rooms') \<Rightarrow> (RoomsSet, Some allocation, rooms'))))"


section \<open>Notions of the specification\<close>

text \<open>The array of a floor, empty for a floor that is absent.\<close>

definition roomsOf :: "inventory \<Rightarrow> nat \<Rightarrow> room list" where
  "roomsOf rooms fl = (case rooms fl of None \<Rightarrow> [] | Some rs \<Rightarrow> rs)"

text \<open>\<open>AvailableRooms(floor)\<close>; \<open>AvailableCount(floor)\<close> is \<^const>\<open>availableCount\<close>.\<close>

definition availableRooms :: "inventory \<Rightarrow> nat \<Rightarrow> room list" where
  "availableRooms rooms fl = unbooked (roomsOf rooms fl)"

text \<open>The number of available rooms of the whole property.\<close>

definition totalAvailable :: "inventory \<Rightarrow> nat" where
  "totalAvailable rooms = sum_list (map (availableCount rooms) [1..<11])"

definition allRooms :: "inventory \<Rightarrow> room list" where
  "allRooms rooms = concat (map (roomsOf rooms) [1..<11])"

text \<open>The inventory has the ten floors.\<close>

definition floorsPresent :: "inventory \<Rightarrow> bool" where
  "floorsPresent rooms = list_all (\<lambda>fl. rooms fl \<noteq> None) [1..<11]"

text \<open>The ten floors are there and no floor repeats a room number.\<close>

definition wellFormed :: "inventory \<Rightarrow> bool" where
  "wellFormed rooms =
     list_all (\<lambda>fl. case rooms fl of None \<Rightarrow> False | Some rs \<Rightarrow> distinct (map number rs)) [1..<11]"

text \<open>The ten floors are there and every floor lists its rooms by ascending number.\<close>

definition ascendingFloors :: "inventory \<Rightarrow> bool" where
  "ascendingFloors rooms =
     list_all (\<lambda>fl. case rooms fl of None \<Rightarrow> False | Some rs \<Rightarrow> sorted_wrt (<) (map number rs)) [1..<11]"

text \<open>The room an allocation entry refers to: \<^verbatim>\<open>rooms[floor][index]\<close>, if there is one.\<close>

definition roomAt :: "inventory \<Rightarrow> roomref \<Rightarrow> room option" where
  "roomAt rooms r =
     (case rooms (floor r) of
        None \<Rightarrow> None
      | Some rs \<Rightarrow> if 0 \<le> index r \<and> index r < int (length rs) then Some (rs ! nat (index r)) else None)"

definition resolve :: "inventory \<Rightarrow> roomref \<Rightarrow> nat \<times> room option" where
  "resolve rooms r = (floor r, roomAt rooms r)"

text \<open>The entries of all available rooms of one floor, in the order of its array.\<close>

definition floorRefs :: "inventory \<Rightarrow> nat \<Rightarrow> roomref list" where
  "floorRefs rooms fl = (case rooms fl of None \<Rightarrow> [] | Some rs \<Rightarrow> map (mkRef fl rs) (unbooked rs))"

text \<open>
  The ranking of the cross-floor tier in the specification's words: by available-room
  count descending, ties by floor number ascending, that is, ascending in the pair
  (minus the count, the floor number) ordered lexicographically.
\<close>

definition rankKey :: "inventory \<Rightarrow> nat \<Rightarrow> int \<times> nat" where
  "rankKey rooms fl = (- int (availableCount rooms fl), fl)"

definition specRanking :: "inventory \<Rightarrow> nat list" where
  "specRanking rooms = sort_key (rankKey rooms) [1..<11]"

text \<open>
  The cross-floor selection in the specification's words: walk the ranked floors, take each
  floor's available rooms by ascending number, stop at \<open>num\<close> rooms.
\<close>

definition specCrossFloor :: "inventory \<Rightarrow> int \<Rightarrow> (nat \<times> room) list" where
  "specCrossFloor rooms num =
     take (nat num)
       (concat (map (\<lambda>fl. map (Pair fl) (sort_key number (availableRooms rooms fl))) (specRanking rooms)))"

text \<open>
  \<open>WithBooked\<close> in the specification's words, without its check: the inventory in which
  every room the selection refers to is booked and nothing else has changed.
\<close>

definition withBooked :: "inventory \<Rightarrow> roomref list \<Rightarrow> inventory" where
  "withBooked rooms sel fl =
     map_option
       (\<lambda>rs. map (\<lambda>(i, rm). if \<lparr>floor = fl, index = int i\<rparr> \<in> set sel then rm\<lparr>booked := True\<rparr> else rm)
                (enumerate 0 rs))
       (rooms fl)"

section \<open>Example inventories\<close>

text \<open>The inventory with the rooms of the given numbers booked as well.\<close>

definition occupy :: "int list \<Rightarrow> inventory \<Rightarrow> inventory" where
  "occupy ns rooms = map_option (map (\<lambda>r. if number r \<in> set ns then r\<lparr>booked := True\<rparr> else r)) \<circ> rooms"

text \<open>The inventory with exactly the rooms of the given numbers available.\<close>

definition occupyAllBut :: "int list \<Rightarrow> inventory \<Rightarrow> inventory" where
  "occupyAllBut ns rooms = map_option (map (\<lambda>r. r\<lparr>booked := number r \<notin> set ns\<rparr>)) \<circ> rooms"

definition scenario2 :: inventory where
  "scenario2 = occupy [101, 102] initializeRooms"

definition almostFull :: inventory where
  "almostFull = occupyAllBut [101, 102] initializeRooms"

definition crossExample :: inventory where
  "crossExample = occupyAllBut [101, 102, 201, 301, 302, 303, 401, 402, 403, 1003] initializeRooms"

definition firstFitExample :: inventory where
  "firstFitExample = occupyAllBut [101, 102, 201, 203, 205, 207, 209, 301, 302, 303] initializeRooms"


section \<open>The two sorts of the routine\<close>

lemma js_insert_number: "js_insert cmpNumber x ys = insort_key number x ys"
  by (induction ys) (auto simp: cmpNumber_def)

lemma js_sort_number: "js_sort cmpNumber xs = sort_key number xs"
  by (induction xs) (auto simp: js_sort_def sort_key_def js_insert_number)

lemma cmpFloors_le: "cmpFloors rooms a b \<le> 0 \<longleftrightarrow> rankKey rooms a \<le> rankKey rooms b"
  by (auto simp: cmpFloors_def rankKey_def Let_def)

lemma js_insert_floors: "js_insert (cmpFloors rooms) x ys = insort_key (rankKey rooms) x ys"
  by (induction ys) (simp_all add: cmpFloors_le)

lemma js_sort_floors: "js_sort (cmpFloors rooms) xs = sort_key (rankKey rooms) xs"
  by (induction xs) (auto simp: js_sort_def sort_key_def js_insert_floors)

section \<open>The loops of the cross-floor tier\<close>

text \<open>The inner loop appends entries until the allocation has \<open>num\<close> of them;
  the outer loop takes the floors in the order given.\<close>

lemma pushRooms_eq:
  "pushRooms fl rs num av alloc = alloc @ take (nat (num - int (length alloc))) (map (mkRef fl rs) av)"
proof (induction av arbitrary: alloc)
  case Nil
  then show ?case by simp
next
  case (Cons rm rest)
  show ?case
  proof (cases "int (length alloc) < num")
    case True
    then have "nat (num - int (length alloc)) = Suc (nat (num - int (length alloc) - 1))"
      by simp
    with True Cons.IH [of "alloc @ [mkRef fl rs rm]"] show ?thesis
      by (simp add: algebra_simps)
  next
    case False
    then show ?thesis by simp
  qed
qed

lemma walkFloors_eq:
  "list_all (\<lambda>fl. rooms fl \<noteq> None) fls \<Longrightarrow>
   walkFloors rooms num fls alloc =
     Inr (alloc @ take (nat (num - int (length alloc))) (concat (map (floorRefs rooms) fls)))"
proof (induction fls arbitrary: alloc)
  case Nil
  then show ?case by simp
next
  case (Cons fl fls)
  then obtain rs where rs: "rooms fl = Some rs" by auto
  let ?refs = "map (mkRef fl rs) (unbooked rs)"
  let ?k = "nat (num - int (length alloc))"
  let ?alloc' = "alloc @ take ?k ?refs"
  have push: "pushRooms fl rs num (unbooked rs) alloc = ?alloc'"
    by (rule pushRooms_eq)
  have fr: "floorRefs rooms fl = ?refs" by (simp add: floorRefs_def rs)
  show ?case
  proof (cases "int (length ?alloc') = num")
    case True
    then have "?k \<le> length ?refs" by auto
    then have "take ?k (?refs @ concat (map (floorRefs rooms) fls)) = take ?k ?refs"
      by simp
    with True show ?thesis by (simp add: rs push fr del: take_append)
  next
    case False
    have ih: "walkFloors rooms num fls ?alloc' =
        Inr (?alloc' @ take (nat (num - int (length ?alloc'))) (concat (map (floorRefs rooms) fls)))"
      using Cons by simp
    have "take ?k ?refs @ take (nat (num - int (length ?alloc'))) (concat (map (floorRefs rooms) fls))
            = take ?k (?refs @ concat (map (floorRefs rooms) fls))"
    proof (cases "?k \<le> length ?refs")
      case True
      with False have "int (length alloc) > num" by (auto simp: min_def split: if_splits)
      then show ?thesis by simp
    next
      case False
      then have "nat (num - int (length ?alloc')) = ?k - length ?refs" by (simp add: min_def) 
      with False show ?thesis by simp
    qed
    with False ih show ?thesis by (simp add: rs push fr del: take_append)
  qed
qed

section \<open>The loop of the same-floor tier\<close>

lemma availableCount_length: "availableCount rooms fl = length (availableRooms rooms fl)"
  by (simp add: availableCount_def availableRooms_def roomsOf_def unbooked_def split: option.splits)

lemma slice_take: "0 \<le> n \<Longrightarrow> slice xs 0 n = take (nat n) xs"
  by (simp add: slice_def Let_def min_def)

lemma sameFloor_skip:
  "list_all (\<lambda>g. rooms g \<noteq> None) pre \<Longrightarrow> (\<forall>g\<in>set pre. int (availableCount rooms g) < num) \<Longrightarrow>
   sameFloor srt rooms num (pre @ fls) = sameFloor srt rooms num fls"
  by (induction pre) (auto simp: availableCount_def Let_def)

lemma sameFloor_none:
  "list_all (\<lambda>g. rooms g \<noteq> None) fls \<Longrightarrow> (\<forall>g\<in>set fls. int (availableCount rooms g) < num) \<Longrightarrow>
   sameFloor srt rooms num fls = Inr None"
  using sameFloor_skip [of rooms fls num srt "[]"] by simp

lemma sameFloor_hit:
  "rooms fl = Some rs \<Longrightarrow> num \<le> int (availableCount rooms fl) \<Longrightarrow>
   sameFloor srt rooms num (fl # fls) =
     Inr (Some (map (mkRef fl rs) (slice (srt cmpNumber (unbooked rs)) 0 num)))"
  by (simp add: availableCount_def Let_def)

lemma upt_split: "1 \<le> fl \<Longrightarrow> fl \<le> 10 \<Longrightarrow> [1..<11] = [1..<fl] @ fl # [Suc fl..<11]"
proof -
  assume a: "1 \<le> fl" "fl \<le> 10"
  then have "[1..<fl + (11 - fl)] = [1..<fl] @ [fl..<fl + (11 - fl)]"
    by (intro upt_add_eq_append) simp
  moreover from a have "fl + (11 - fl) = 11" by simp
  moreover from a have "[fl..<11] = fl # [Suc fl..<11]" by (simp add: upt_conv_Cons)
  ultimately show ?thesis by simp
qed

section \<open>Entries and the rooms they refer to\<close>

lemma findIndex_bounds: "- 1 \<le> findIndex P xs \<and> findIndex P xs < int (length xs)"
  by (induction xs) (auto simp: Let_def)

lemma findIndex_found:
  "\<exists>x\<in>set xs. P x \<Longrightarrow> 0 \<le> findIndex P xs \<and> P (xs ! nat (findIndex P xs))"
proof (induction xs)
  case Nil
  then show ?case by simp
next
  case (Cons x xs)
  show ?case
  proof (cases "P x")
    case True
    then show ?thesis by simp
  next
    case False
    with Cons.prems have "\<exists>x\<in>set xs. P x" by simp
    from Cons.IH [OF this] have k: "0 \<le> findIndex P xs" "P (xs ! nat (findIndex P xs))" by simp_all
    from k(1) have "nat (findIndex P xs + 1) = Suc (nat (findIndex P xs))" by simp
    with False k show ?thesis by (simp add: Let_def)
  qed
qed

lemma findIndex_number:
  assumes "distinct (map number rs)" "rm \<in> set rs"
  shows "0 \<le> findIndex (\<lambda>r. number r = number rm) rs
       \<and> findIndex (\<lambda>r. number r = number rm) rs < int (length rs)
       \<and> rs ! nat (findIndex (\<lambda>r. number r = number rm) rs) = rm"
proof -
  let ?k = "findIndex (\<lambda>r. number r = number rm) rs"
  from assms(2) have "\<exists>x\<in>set rs. number x = number rm" by blast
  from findIndex_found [of rs "\<lambda>r. number r = number rm", OF this]
  have k: "0 \<le> ?k" "number (rs ! nat ?k) = number rm" by simp_all
  have lt: "?k < int (length rs)" using findIndex_bounds [of "\<lambda>r. number r = number rm" rs] by simp
  with k(1) have "rs ! nat ?k \<in> set rs" by simp
  moreover from assms(1) have "inj_on number (set rs)" by (simp add: distinct_map)
  ultimately have "rs ! nat ?k = rm" using k(2) assms(2) by (auto dest: inj_onD)
  with k(1) lt show ?thesis by simp
qed

lemma resolve_mkRef:
  "rooms fl = Some rs \<Longrightarrow> distinct (map number rs) \<Longrightarrow> rm \<in> set rs \<Longrightarrow>
   resolve rooms (mkRef fl rs rm) = (fl, Some rm)"
  using findIndex_number [of rs rm] by (simp add: resolve_def roomAt_def mkRef_def)

lemma resolve_map_mkRef:
  "rooms fl = Some rs \<Longrightarrow> distinct (map number rs) \<Longrightarrow> set xs \<subseteq> set rs \<Longrightarrow>
   map (resolve rooms) (map (mkRef fl rs) xs) = map (\<lambda>rm. (fl, Some rm)) xs"
  by (induction xs) (simp_all add: resolve_mkRef)

section \<open>Sorts that meet the contract\<close>

lemma stableSort_number:
  assumes "stableSort srt cmpNumber"
  shows "srt cmpNumber xs = sort_key number xs"
proof (rule properties_for_sort_key [symmetric])
  from assms show "mset (srt cmpNumber xs) = mset xs" by (simp add: stableSort_def)
  from assms have "sorted_wrt (\<lambda>a b. cmpNumber a b \<le> 0) (srt cmpNumber xs)"
    by (simp add: stableSort_def)
  then show "sorted (map number (srt cmpNumber xs))"
    by (simp add: sorted_map cmpNumber_def)
  fix k
  from assms have "filter (\<lambda>y. cmpNumber k y = 0) (srt cmpNumber xs) = filter (\<lambda>y. cmpNumber k y = 0) xs"
    by (simp add: stableSort_def)
  then show "filter (\<lambda>x. number k = number x) (srt cmpNumber xs) = filter (\<lambda>x. number k = number x) xs"
    by (simp add: cmpNumber_def)
qed

lemma cmpFloors_zero: "cmpFloors rooms a b = 0 \<longleftrightarrow> a = b"
  by (auto simp: cmpFloors_def Let_def)

lemma stableSort_floors:
  assumes "stableSort srt (cmpFloors rooms)"
  shows "srt (cmpFloors rooms) xs = sort_key (rankKey rooms) xs"
proof (rule properties_for_sort_key [symmetric])
  from assms show "mset (srt (cmpFloors rooms) xs) = mset xs" by (simp add: stableSort_def)
  from assms have "sorted_wrt (\<lambda>a b. cmpFloors rooms a b \<le> 0) (srt (cmpFloors rooms) xs)"
    by (simp add: stableSort_def)
  then show "sorted (map (rankKey rooms) (srt (cmpFloors rooms) xs))"
    by (simp add: sorted_map cmpFloors_le)
  fix k
  from assms have "filter (\<lambda>y. cmpFloors rooms k y = 0) (srt (cmpFloors rooms) xs)
      = filter (\<lambda>y. cmpFloors rooms k y = 0) xs"
    by (simp add: stableSort_def)
  moreover have "(\<lambda>x. rankKey rooms k = rankKey rooms x) = (\<lambda>y. cmpFloors rooms k y = 0)"
    by (auto simp: cmpFloors_zero rankKey_def)
  ultimately show "filter (\<lambda>x. rankKey rooms k = rankKey rooms x) (srt (cmpFloors rooms) xs)
      = filter (\<lambda>x. rankKey rooms k = rankKey rooms x) xs"
    by simp
qed

lemma sameFloor_cong:
  "srt cmpNumber = srt' cmpNumber \<Longrightarrow> sameFloor srt rooms num fls = sameFloor srt' rooms num fls"
  by (induction fls) (simp_all add: Let_def split: option.splits)

section \<open>The two tiers of the routine\<close>

lemma least_floor:
  assumes "\<exists>g\<in>{1..10}. num \<le> int (availableCount rooms g)"
  shows "\<exists>fl. 1 \<le> fl \<and> fl \<le> 10 \<and> num \<le> int (availableCount rooms fl)
           \<and> (\<forall>g\<in>{1..<fl}. int (availableCount rooms g) < num)"
proof -
  let ?Q = "\<lambda>g. 1 \<le> g \<and> g \<le> 10 \<and> num \<le> int (availableCount rooms g)"
  from assms have ex: "\<exists>g. ?Q g" by auto
  have least: "?Q (Least ?Q)" by (rule LeastI_ex [OF ex])
  have "\<forall>g\<in>{1..<Least ?Q}. int (availableCount rooms g) < num"
  proof
    fix g assume g: "g \<in> {1..<Least ?Q}"
    then have "\<not> ?Q g" using not_less_Least [of g ?Q] by simp
    with g least show "int (availableCount rooms g) < num" by auto
  qed
  with least show ?thesis by blast
qed

lemma ball_floors: "(\<forall>g\<in>{1..10}. P g) = list_all P [1..<11]"
proof -
  have "set [1..<11] = {1..10::nat}" by auto
  then show ?thesis unfolding list_all_iff by simp
qed

lemma floors_list: "map (\<lambda>i. i + 1) [0..<10] = [1..<11]"
  using map_Suc_upt [of 0 10] by simp

lemma floorsPresent_Some: "floorsPresent rooms \<Longrightarrow> 1 \<le> fl \<Longrightarrow> fl \<le> 10 \<Longrightarrow> \<exists>rs. rooms fl = Some rs"
  by (auto simp: floorsPresent_def list_all_iff)

lemma tier1:
  assumes "floorsPresent rooms" "1 \<le> fl" "fl \<le> 10" "num \<le> int (availableCount rooms fl)"
    and "\<forall>g\<in>{1..<fl}. int (availableCount rooms g) < num"
  shows "findBestAllocationWith sR sF rooms num =
     Inr (map (mkRef fl (roomsOf rooms fl)) (slice (sR cmpNumber (availableRooms rooms fl)) 0 num))"
proof -
  from floorsPresent_Some [OF assms(1-3)] obtain rs where rs: "rooms fl = Some rs" ..
  have pre: "list_all (\<lambda>g. rooms g \<noteq> None) [1..<fl]"
    using assms(1,3) by (auto simp: floorsPresent_def list_all_iff)
  have "sameFloor sR rooms num [1..<11] = sameFloor sR rooms num (fl # [Suc fl..<11])"
    using sameFloor_skip [OF pre, of num sR "fl # [Suc fl..<11]"] assms(5) upt_split [OF assms(2,3)]
    by simp
  also have "\<dots> = Inr (Some (map (mkRef fl rs) (slice (sR cmpNumber (unbooked rs)) 0 num)))"
    by (rule sameFloor_hit [OF rs assms(4)])
  finally show ?thesis
    by (simp add: findBestAllocationWith_def roomsOf_def availableRooms_def rs)
qed

lemma tier2:
  assumes "floorsPresent rooms" "\<forall>g\<in>{1..10}. int (availableCount rooms g) < num"
    and "stableSort sF (cmpFloors rooms)"
  shows "findBestAllocationWith sR sF rooms num =
     Inr (take (nat num) (concat (map (floorRefs rooms) (specRanking rooms))))"
proof -
  have all: "list_all (\<lambda>g. rooms g \<noteq> None) [1..<11]"
    using assms(1) by (simp add: floorsPresent_def)
  have none: "sameFloor sR rooms num [1..<11] = Inr None"
    using assms(2) by (intro sameFloor_none [OF all]) auto
  have srt: "sF (cmpFloors rooms) [1..<11] = specRanking rooms"
    by (simp add: stableSort_floors [OF assms(3)] specRanking_def)
  have "set (specRanking rooms) = set [1..<11]"
    by (simp add: specRanking_def del: set_upt)
  with all have "list_all (\<lambda>g. rooms g \<noteq> None) (specRanking rooms)"
    by (simp add: list_all_iff)
  from walkFloors_eq [OF this, of num "[]"] none all srt show ?thesis
    unfolding findBestAllocationWith_def floors_list Let_def by simp
qed

lemma length_floorRefs: "length (floorRefs rooms fl) = availableCount rooms fl"
  by (simp add: floorRefs_def availableCount_def split: option.splits)

lemma length_all_refs: "length (concat (map (floorRefs rooms) (specRanking rooms))) = totalAvailable rooms"
proof -
  have "length (concat (map (floorRefs rooms) (specRanking rooms)))
      = sum_list (map (availableCount rooms) (specRanking rooms))"
    by (simp add: length_concat comp_def length_floorRefs)
  also have "\<dots> = sum_mset (image_mset (availableCount rooms) (mset (specRanking rooms)))"
    by (metis mset_map sum_mset_sum_list)
  also have "mset (specRanking rooms) = mset [1..<11]"
    by (simp add: specRanking_def)
  also have "sum_mset (image_mset (availableCount rooms) (mset [1..<11])) = totalAvailable rooms"
    unfolding totalAvailable_def by (metis mset_map sum_mset_sum_list)
  finally show ?thesis .
qed

lemma availableCount_le_total: "1 \<le> fl \<Longrightarrow> fl \<le> 10 \<Longrightarrow> availableCount rooms fl \<le> totalAvailable rooms"
  unfolding totalAvailable_def by (rule member_le_sum_list) simp_all

section \<open>Well-formed inventories\<close>

lemma wellFormed_Some:
  assumes "wellFormed rooms" "1 \<le> fl" "fl \<le> 10"
  shows "\<exists>rs. rooms fl = Some rs \<and> distinct (map number rs)"
proof -
  from assms(2,3) have "fl \<in> set [1..<11]" by simp
  with assms(1) show ?thesis
    unfolding wellFormed_def list_all_iff by (cases "rooms fl") force+
qed

lemma wellFormed_present: "wellFormed rooms \<Longrightarrow> floorsPresent rooms"
  by (auto simp: wellFormed_def floorsPresent_def list_all_iff split: option.splits)

lemma ascending_wellFormed: "ascendingFloors rooms \<Longrightarrow> wellFormed rooms"
  by (auto simp: wellFormed_def ascendingFloors_def list_all_iff strict_sorted_iff split: option.splits)

lemma ascending_sorted:
  "ascendingFloors rooms \<Longrightarrow> 1 \<le> fl \<Longrightarrow> fl \<le> 10 \<Longrightarrow> sort_key number (availableRooms rooms fl) = availableRooms rooms fl"
proof -
  assume a: "ascendingFloors rooms" "1 \<le> fl" "fl \<le> 10"
  then have "fl \<in> set [1..<11]" by simp
  with a(1) obtain rs where rs: "rooms fl = Some rs" "sorted_wrt (<) (map number rs)"
    unfolding ascendingFloors_def list_all_iff by (cases "rooms fl") force+
  then have "sorted (map number rs)" by (simp add: strict_sorted_iff)
  then have "sorted (map number (unbooked rs))" unfolding unbooked_def by (rule sorted_filter)
  then show ?thesis by (simp add: availableRooms_def roomsOf_def rs sort_key_id_if_sorted)
qed

lemma resolve_floorRefs:
  assumes "wellFormed rooms" "1 \<le> fl" "fl \<le> 10"
  shows "map (resolve rooms) (floorRefs rooms fl) = map (\<lambda>rm. (fl, Some rm)) (availableRooms rooms fl)"
proof -
  from wellFormed_Some [OF assms] obtain rs where rs: "rooms fl = Some rs" "distinct (map number rs)"
    by blast
  have "set (unbooked rs) \<subseteq> set rs" by (auto simp: unbooked_def)
  from resolve_map_mkRef [of rooms fl rs, OF rs this] show ?thesis
    by (simp add: floorRefs_def availableRooms_def roomsOf_def rs)
qed

lemma resolve_all_refs:
  assumes "wellFormed rooms" "set fls \<subseteq> {1..10}"
  shows "map (resolve rooms) (concat (map (floorRefs rooms) fls))
       = map (\<lambda>(fl, rm). (fl, Some rm)) (concat (map (\<lambda>fl. map (Pair fl) (availableRooms rooms fl)) fls))"
  using assms(2)
proof (induction fls)
  case Nil
  then show ?case by simp
next
  case (Cons fl fls)
  then have "1 \<le> fl" "fl \<le> 10" by simp_all
  from resolve_floorRefs [OF assms(1) this] Cons show ?case by (simp add: comp_def)
qed

lemma set_specRanking: "set (specRanking rooms) = {1..10}"
  by (auto simp: specRanking_def)

lemma distinct_specRanking: "distinct (specRanking rooms)"
  by (simp add: specRanking_def)

section \<open>Applying an allocation\<close>

lemma enumerate_id: "map (\<lambda>(i, rm). rm) (enumerate n xs) = xs"
  by (simp add: case_prod_unfold)

lemma withBooked_Nil: "withBooked rooms [] = rooms"
proof
  fix fl
  show "withBooked rooms [] fl = rooms fl"
    by (cases "rooms fl") (simp_all add: withBooked_def enumerate_id)
qed

lemma roomAt_withBooked_None: "roomAt (withBooked rooms sel) r = None \<longleftrightarrow> roomAt rooms r = None"
  by (cases "rooms (floor r)") (simp_all add: roomAt_def withBooked_def)

lemma ref_eq: "\<lparr>floor = fl, index = k\<rparr> = r \<longleftrightarrow> fl = floor r \<and> k = index r"
  by (cases r) auto

lemma markBooked_valid:
  assumes "roomAt rooms r \<noteq> None"
  shows "markBooked rooms r = Inr (withBooked rooms [r])"
proof -
  from assms obtain rs where rs: "rooms (floor r) = Some rs" and ix: "0 \<le> index r" "index r < int (length rs)"
    by (auto simp: roomAt_def split: option.splits if_splits)
  let ?k = "nat (index r)"
  have upd: "rs[?k := (rs ! ?k)\<lparr>booked := True\<rparr>]
      = map (\<lambda>(i, rm). if \<lparr>floor = floor r, index = int i\<rparr> \<in> set [r] then rm\<lparr>booked := True\<rparr> else rm)
          (enumerate 0 rs)"
  proof (rule nth_equalityI)
    show "length (rs[?k := (rs ! ?k)\<lparr>booked := True\<rparr>]) = length (map (\<lambda>(i, rm). if \<lparr>floor = floor r, index = int i\<rparr> \<in> set [r] then rm\<lparr>booked := True\<rparr> else rm)
          (enumerate 0 rs))" by simp
  next
    fix i assume "i < length (rs[?k := (rs ! ?k)\<lparr>booked := True\<rparr>])"
    then have i: "i < length rs" by simp
    have "int i = index r \<longleftrightarrow> i = ?k" using ix by auto
    with i show "rs[?k := (rs ! ?k)\<lparr>booked := True\<rparr>] ! i
        = map (\<lambda>(i, rm). if \<lparr>floor = floor r, index = int i\<rparr> \<in> set [r] then rm\<lparr>booked := True\<rparr> else rm)
          (enumerate 0 rs) ! i"
      by (simp add: nth_enumerate_eq ref_eq nth_list_update)
  qed
  have "rooms(floor r \<mapsto> rs[?k := (rs ! ?k)\<lparr>booked := True\<rparr>]) = withBooked rooms [r]"
  proof
    fix fl
    show "(rooms(floor r \<mapsto> rs[?k := (rs ! ?k)\<lparr>booked := True\<rparr>])) fl = withBooked rooms [r] fl"
    proof (cases "fl = floor r")
      case True
      then show ?thesis using upd by (simp add: withBooked_def rs)
    next
      case False
      from False show ?thesis
        by (cases "rooms fl") (simp_all add: withBooked_def ref_eq enumerate_id)
    qed
  qed
  with rs ix show ?thesis by (simp add: markBooked_def)
qed

lemma markBooked_invalid: "roomAt rooms r = None \<Longrightarrow> markBooked rooms r = Inl TypeError"
  by (auto simp: roomAt_def markBooked_def split: option.splits if_splits)

lemma withBooked_Cons: "withBooked (withBooked rooms [r]) sel = withBooked rooms (r # sel)"
proof
  fix fl
  show "withBooked (withBooked rooms [r]) sel fl = withBooked rooms (r # sel) fl"
  proof (cases "rooms fl")
    case None
    then show ?thesis by (simp add: withBooked_def)
  next
    case (Some rs)
    have "map (\<lambda>(i, rm). if \<lparr>floor = fl, index = int i\<rparr> \<in> set sel then rm\<lparr>booked := True\<rparr> else rm)
            (enumerate 0 (map (\<lambda>(i, rm). if \<lparr>floor = fl, index = int i\<rparr> \<in> set [r] then rm\<lparr>booked := True\<rparr> else rm)
                (enumerate 0 rs)))
        = map (\<lambda>(i, rm). if \<lparr>floor = fl, index = int i\<rparr> \<in> set (r # sel) then rm\<lparr>booked := True\<rparr> else rm)
            (enumerate 0 rs)"
      by (rule nth_equalityI) (auto simp: nth_enumerate_eq)
    with Some show ?thesis by (simp add: withBooked_def)
  qed
qed

lemma applyAllocation_valid:
  "\<forall>r\<in>set sel. roomAt rooms r \<noteq> None \<Longrightarrow> applyAllocation rooms sel = (None, withBooked rooms sel)"
proof (induction sel arbitrary: rooms)
  case Nil
  then show ?case by (simp add: withBooked_Nil)
next
  case (Cons r sel)
  then have r: "markBooked rooms r = Inr (withBooked rooms [r])"
    by (simp add: markBooked_valid)
  from Cons.prems have "\<forall>r'\<in>set sel. roomAt (withBooked rooms [r]) r' \<noteq> None"
    by (simp add: roomAt_withBooked_None)
  from Cons.IH [OF this] r show ?case by (simp add: withBooked_Cons)
qed

lemma applyAllocation_invalid:
  "\<exists>r\<in>set sel. roomAt rooms r = None \<Longrightarrow> fst (applyAllocation rooms sel) = Some TypeError"
proof (induction sel arbitrary: rooms)
  case Nil
  then show ?case by simp
next
  case (Cons r sel)
  show ?case
  proof (cases "roomAt rooms r = None")
    case True
    then show ?thesis by (simp add: markBooked_invalid)
  next
    case False
    then have r: "markBooked rooms r = Inr (withBooked rooms [r])"
      by (simp add: markBooked_valid)
    from False Cons.prems have "\<exists>r'\<in>set sel. roomAt (withBooked rooms [r]) r' = None"
      by (auto simp: roomAt_withBooked_None)
    from Cons.IH [OF this] r show ?thesis by simp
  qed
qed

section \<open>Selections of available rooms\<close>

lemma slice_is_take: "\<exists>k. slice xs 0 n = take k xs"
  by (simp add: slice_def Let_def) blast

lemma available_unbooked: "rm \<in> set (availableRooms rooms fl) \<Longrightarrow> \<not> booked rm"
  by (simp add: availableRooms_def unbooked_def)

lemma available_distinct:
  assumes "wellFormed rooms" "1 \<le> fl" "fl \<le> 10"
  shows "distinct (availableRooms rooms fl)"
proof -
  from wellFormed_Some [OF assms] obtain rs where rs: "rooms fl = Some rs" "distinct (map number rs)"
    by blast
  from rs(2) have "distinct rs" by (simp add: distinct_map)
  then show ?thesis by (simp add: availableRooms_def roomsOf_def rs unbooked_def)
qed

lemma distinct_pairs:
  "distinct fls \<Longrightarrow> (\<forall>fl\<in>set fls. distinct (F fl)) \<Longrightarrow>
   distinct (concat (map (\<lambda>fl. map (Pair fl) (F fl)) fls))"
  by (induction fls) (auto simp: distinct_map inj_on_def)

lemma good_selection:
  assumes eq: "map (resolve rooms) sel = map (\<lambda>(fl, rm). (fl, Some rm)) P"
    and dist: "distinct P"
    and mem: "\<forall>(fl, rm)\<in>set P. fl \<in> {1..10} \<and> \<not> booked rm"
  shows "(\<forall>r\<in>set sel. floor r \<in> {1..10} \<and> (\<exists>rm. roomAt rooms r = Some rm \<and> \<not> booked rm))
       \<and> distinct (map (resolve rooms) sel)
       \<and> fst (applyAllocation rooms sel) = None"
proof -
  have each: "floor r \<in> {1..10} \<and> (\<exists>rm. roomAt rooms r = Some rm \<and> \<not> booked rm)" if "r \<in> set sel" for r
  proof -
    from that have "resolve rooms r \<in> set (map (resolve rooms) sel)" by simp
    then have "resolve rooms r \<in> (\<lambda>(fl, rm). (fl, Some rm)) ` set P" by (simp add: eq)
    then obtain fl rm where "(fl, rm) \<in> set P" "resolve rooms r = (fl, Some rm)" by auto
    with mem show ?thesis by (auto simp: resolve_def)
  qed
  have "inj_on (\<lambda>(fl, rm). (fl, Some rm)) (set P)" by (auto simp: inj_on_def)
  with dist have d: "distinct (map (resolve rooms) sel)" by (simp add: eq distinct_map)
  from each have "\<forall>r\<in>set sel. roomAt rooms r \<noteq> None" by auto
  then have "fst (applyAllocation rooms sel) = None" by (simp add: applyAllocation_valid)
  with each d show ?thesis by blast
qed

section \<open>The initial inventory\<close>

lemma dom_foldl_upd: "dom (foldl (\<lambda>rooms fl. rooms(fl \<mapsto> F fl)) m fls) = dom m \<union> set fls"
  by (induction fls arbitrary: m) auto

section \<open>The left-to-right insertion sort\<close>

lemma mset_insertLast: "mset (insertLast cmp x ys) = add_mset x (mset ys)"
  by (induction ys) simp_all

lemma set_insertLast: "set (insertLast cmp x ys) = insert x (set ys)"
  by (induction ys) auto

lemma sorted_insertLast:
  fixes f :: "'a \<Rightarrow> 'k::linorder"
  assumes key: "\<And>x y. (cmp x y < 0) = (f x < f y)"
  shows "sorted (map f ys) \<Longrightarrow> sorted (map f (insertLast cmp x ys))"
  by (induction ys) (auto simp: key set_insertLast)

lemma filter_insertLast:
  fixes f :: "'a \<Rightarrow> 'k::linorder"
  assumes key: "\<And>x y. (cmp x y < 0) = (f x < f y)"
  shows "sorted (map f ys) \<Longrightarrow>
    filter (\<lambda>y. f y = k) (insertLast cmp x ys) = filter (\<lambda>y. f y = k) ys @ (if f x = k then [x] else [])"
proof (induction ys)
  case Nil
  then show ?case by simp
next
  case (Cons y ys)
  show ?case
  proof (cases "cmp x y < 0")
    case True
    then have lt: "f x < f y" by (simp add: key)
    with Cons.prems have "\<forall>z\<in>set (y # ys). f x < f z" by auto
    then have "f x = k \<Longrightarrow> filter (\<lambda>y. f y = k) (y # ys) = []"
      by (auto simp: filter_empty_conv)
    with True show ?thesis by auto
  next
    case False
    with Cons show ?thesis by simp
  qed
qed

lemma foldl_insertLast:
  fixes f :: "'a \<Rightarrow> 'k::linorder"
  assumes key: "\<And>x y. (cmp x y < 0) = (f x < f y)"
  shows "sorted (map f acc) \<Longrightarrow>
     mset (foldl (\<lambda>acc x. insertLast cmp x acc) acc xs) = mset acc + mset xs
   \<and> sorted (map f (foldl (\<lambda>acc x. insertLast cmp x acc) acc xs))
   \<and> filter (\<lambda>y. f y = k) (foldl (\<lambda>acc x. insertLast cmp x acc) acc xs)
       = filter (\<lambda>y. f y = k) acc @ filter (\<lambda>y. f y = k) xs"
proof (induction xs arbitrary: acc)
  case Nil
  then show ?case by simp
next
  case (Cons x xs)
  have s: "sorted (map f (insertLast cmp x acc))"
    by (rule sorted_insertLast [OF key Cons.prems])
  from Cons.IH [OF s] filter_insertLast [OF key Cons.prems, where k = k and x = x]
  show ?case by (simp add: mset_insertLast)
qed

lemma insertionSort_key:
  fixes f :: "'a \<Rightarrow> 'k::linorder"
  assumes key: "\<And>x y. (cmp x y < 0) = (f x < f y)"
  shows "insertionSort cmp xs = sort_key f xs"
proof (rule properties_for_sort_key [symmetric])
  show "mset (insertionSort cmp xs) = mset xs"
    using foldl_insertLast [OF key, where acc = "[]" and xs = xs] by (simp add: insertionSort_def)
  show "sorted (map f (insertionSort cmp xs))"
    using foldl_insertLast [OF key, where acc = "[]" and xs = xs] by (simp add: insertionSort_def)
  fix k
  have "filter (\<lambda>y. f y = f k) (insertionSort cmp xs) = filter (\<lambda>y. f y = f k) xs"
    using foldl_insertLast [OF key, where acc = "[]" and xs = xs and k = "f k"] by (simp add: insertionSort_def)
  moreover have "(\<lambda>x. f k = f x) = (\<lambda>y. f y = f k)" by auto
  ultimately show "filter (\<lambda>x. f k = f x) (insertionSort cmp xs) = filter (\<lambda>x. f k = f x) xs"
    by simp
qed

lemma stableSort_sort_key:
  fixes f :: "'a \<Rightarrow> 'k::linorder"
  assumes eq: "\<And>xs. srt cmp xs = sort_key f xs"
    and le: "\<And>x y. (cmp x y \<le> 0) = (f x \<le> f y)"
    and zero: "\<And>x y. (cmp x y = 0) = (f x = f y)"
  shows "stableSort srt cmp"
  unfolding stableSort_def
proof (intro allI conjI)
  fix xs
  show "mset (srt cmp xs) = mset xs" by (simp add: eq)
  show "sorted_wrt (\<lambda>a b. cmp a b \<le> 0) (srt cmp xs)"
    using sorted_sort_key [of f xs] by (simp add: eq sorted_map le)
  fix x
  have "filter (\<lambda>y. f y = f x) (sort_key f xs) = filter (\<lambda>y. f y = f x) xs"
    by (rule sort_key_stable)
  moreover have "(\<lambda>y. cmp x y = 0) = (\<lambda>y. f y = f x)"
    by (auto simp: zero)
  ultimately show "filter (\<lambda>y. cmp x y = 0) (srt cmp xs) = filter (\<lambda>y. cmp x y = 0) xs"
    by (simp add: eq)
qed

lemma js_sort_stable_number: "stableSort js_sort cmpNumber"
  by (rule stableSort_sort_key [where f = number]) (auto simp: js_sort_number cmpNumber_def)

lemma cmpFloors_less: "cmpFloors rooms a b < 0 \<longleftrightarrow> rankKey rooms a < rankKey rooms b"
  by (auto simp: cmpFloors_def rankKey_def Let_def)

lemma js_sort_stable_floors: "stableSort js_sort (cmpFloors rooms)"
  by (rule stableSort_sort_key [where f = "rankKey rooms"])
     (auto simp: js_sort_floors cmpFloors_le cmpFloors_zero rankKey_def)

lemma insertionSort_stable_number: "stableSort insertionSort cmpNumber"
proof (rule stableSort_sort_key [where f = number])
  show "insertionSort cmpNumber xs = sort_key number xs" for xs
    by (rule insertionSort_key) (simp add: cmpNumber_def)
qed (auto simp: cmpNumber_def)

lemma insertionSort_stable_floors: "stableSort insertionSort (cmpFloors rooms)"
proof (rule stableSort_sort_key [where f = "rankKey rooms"])
  show "insertionSort (cmpFloors rooms) xs = sort_key (rankKey rooms) xs" for xs
    by (rule insertionSort_key) (rule cmpFloors_less)
qed (auto simp: cmpFloors_le cmpFloors_zero rankKey_def)

section \<open>The ranking of the floors\<close>

lemma specRanking_order:
  "sorted_wrt (\<lambda>a b. availableCount rooms a > availableCount rooms b
                    \<or> (availableCount rooms a = availableCount rooms b \<and> a < b))
     (specRanking rooms)"
proof -
  have "inj_on (rankKey rooms) (set (specRanking rooms))"
    by (auto simp: inj_on_def rankKey_def)
  with distinct_specRanking [of rooms] have "distinct (map (rankKey rooms) (specRanking rooms))"
    by (simp add: distinct_map)
  moreover have "sorted (map (rankKey rooms) (specRanking rooms))"
    by (simp add: specRanking_def)
  ultimately have "sorted_wrt (<) (map (rankKey rooms) (specRanking rooms))"
    by (simp add: strict_sorted_iff)
  then have "sorted_wrt (\<lambda>a b. rankKey rooms a < rankKey rooms b) (specRanking rooms)"
    by (simp add: sorted_wrt_map)
  then show ?thesis
    by (rule sorted_wrt_mono_rel [rotated]) (auto simp: rankKey_def)
qed

lemma ball_below: "(\<forall>g\<in>{1..<fl}. P g) = list_all P [1..<fl]"
  unfolding list_all_iff by simp

section \<open>The claims\<close>

text \<open>
  C8: \<^verbatim>\<open>initializeRooms\<close> builds exactly the floors 1 to 10; a floor \<open>fl\<close> from 1 to 9
  holds the ten rooms numbered \<open>fl * 100 + 1\<close> to \<open>fl * 100 + 10\<close> in this order, floor 10
  the seven rooms 1001 to 1007; no room is booked, there are 97 rooms, and their numbers
  ascend strictly through the whole inventory, so none repeats.
\<close>

theorem initializeRooms_layout:
  "dom initializeRooms = {1..10}
   \<and> map initializeRooms [1..<10]
       = map (\<lambda>fl. Some (map (\<lambda>i. \<lparr>number = int fl * 100 + i, booked = False\<rparr>) [1..10])) [1..<10]
   \<and> initializeRooms 10 = Some (map (\<lambda>i. \<lparr>number = 1000 + i, booked = False\<rparr>) [1..7])
   \<and> filter booked (allRooms initializeRooms) = []
   \<and> length (allRooms initializeRooms) = 97
   \<and> sorted_wrt (<) (map number (allRooms initializeRooms))
   \<and> distinct (map number (allRooms initializeRooms))"
proof (intro conjI)
  show "dom initializeRooms = {1..10}"
    unfolding initializeRooms_def dom_foldl_upd by auto
  show "map initializeRooms [1..<10]
       = map (\<lambda>fl. Some (map (\<lambda>i. \<lparr>number = int fl * 100 + i, booked = False\<rparr>) [1..10])) [1..<10]"
    by code_simp
  show "initializeRooms 10 = Some (map (\<lambda>i. \<lparr>number = 1000 + i, booked = False\<rparr>) [1..7])"
    by code_simp
  show "filter booked (allRooms initializeRooms) = []"
    by code_simp
  show "length (allRooms initializeRooms) = 97"
    by code_simp
  show "sorted_wrt (<) (map number (allRooms initializeRooms))"
    by code_simp
  show "distinct (map number (allRooms initializeRooms))"
    by code_simp
qed

text \<open>
  C9: on the initial inventory with rooms 101 and 102 booked, floor 1 has 8 available
  rooms, a request for 3 rooms is served by the same-floor loop, and the allocation refers
  to the rooms 103, 104 and 105 of floor 1.
\<close>

theorem scenario2_allocation:
  "availableCount scenario2 1 = 8
   \<and> sameFloor js_sort scenario2 3 [1..<11]
       = Inr (Some [\<lparr>floor = 1, index = 2\<rparr>, \<lparr>floor = 1, index = 3\<rparr>, \<lparr>floor = 1, index = 4\<rparr>])
   \<and> findBestAllocation scenario2 3
       = Inr [\<lparr>floor = 1, index = 2\<rparr>, \<lparr>floor = 1, index = 3\<rparr>, \<lparr>floor = 1, index = 4\<rparr>]
   \<and> map (roomAt scenario2) [\<lparr>floor = 1, index = 2\<rparr>, \<lparr>floor = 1, index = 3\<rparr>, \<lparr>floor = 1, index = 4\<rparr>]
       = [Some \<lparr>number = 103, booked = False\<rparr>, Some \<lparr>number = 104, booked = False\<rparr>,
          Some \<lparr>number = 105, booked = False\<rparr>]"
  by code_simp

text \<open>
  C7: for an integer below 1 or above 5, \<^verbatim>\<open>bookRooms\<close> shows the range alert and
  returns: no allocation is computed and the inventory is the one it was, whatever the
  inventory is.
\<close>

theorem out_of_range_rejected:
  "num < 1 \<or> num > 5 \<Longrightarrow> bookRooms rooms num = (RangeAlert, None, rooms)"
  by (simp add: bookRooms_def)

theorem out_of_range_rejected_witness:
  "bookRooms Map.empty 0 = (RangeAlert, None, Map.empty)
   \<and> bookRooms initializeRooms 6 = (RangeAlert, None, initializeRooms)
   \<and> findBestAllocation Map.empty 0 = Inl TypeError"
proof -
  have "(0::int) < 1 \<or> (0::int) > 5" by simp
  from out_of_range_rejected [OF this]
  have a: "bookRooms Map.empty 0 = (RangeAlert, None, Map.empty)" .
  have "(6::int) < 1 \<or> (6::int) > 5" by simp
  from out_of_range_rejected [OF this]
  have b: "bookRooms initializeRooms 6 = (RangeAlert, None, initializeRooms)" .
  have c: "findBestAllocation Map.empty 0 = Inl TypeError" by code_simp
  from a b c show ?thesis by blast
qed

text \<open>
  C1, where the code departs from it: with only the rooms 101 and 102 available, a request
  for 3 rooms gets an allocation of these two rooms, shorter than the request and not
  empty, and \<^verbatim>\<open>bookRooms\<close> books them: afterwards no room is available.
\<close>

theorem partial_booking_on_shortage:
  "totalAvailable almostFull = 2
   \<and> findBestAllocation almostFull 3 = Inr [\<lparr>floor = 1, index = 0\<rparr>, \<lparr>floor = 1, index = 1\<rparr>]
   \<and> (case bookRooms almostFull 3 of (out, alloc, rooms') \<Rightarrow>
         out = RoomsSet \<and> alloc = Some [\<lparr>floor = 1, index = 0\<rparr>, \<lparr>floor = 1, index = 1\<rparr>]
         \<and> totalAvailable rooms' = 0)"
  by code_simp

text \<open>
  C2 as stated fails: room 101 of \<^const>\<open>scenario2\<close> is already booked, and applying an
  allocation that refers to it raises nothing and returns the same inventory.
\<close>

theorem rebooking_not_rejected:
  "roomAt scenario2 \<lparr>floor = 1, index = 0\<rparr> = Some \<lparr>number = 101, booked = True\<rparr>
   \<and> fst (applyAllocation scenario2 [\<lparr>floor = 1, index = 0\<rparr>]) = None
   \<and> map (snd (applyAllocation scenario2 [\<lparr>floor = 1, index = 0\<rparr>])) [1..<11] = map scenario2 [1..<11]"
  by code_simp

text \<open>
  C2, amended: the booking step checks nothing. When every entry of the selection refers
  to a room of the inventory, it raises nothing and yields the inventory in which exactly
  the referenced rooms have been set to booked, a room booked before staying booked; when
  some entry refers to no room, it raises a \<open>TypeError\<close>.
\<close>

theorem commit_unchecked:
  "((\<forall>r\<in>set sel. roomAt rooms r \<noteq> None) \<longrightarrow> applyAllocation rooms sel = (None, withBooked rooms sel))
   \<and> ((\<exists>r\<in>set sel. roomAt rooms r = None) \<longrightarrow> fst (applyAllocation rooms sel) = Some TypeError)"
  using applyAllocation_valid [of sel rooms] applyAllocation_invalid [of sel rooms] by blast

theorem commit_unchecked_witness:
  "applyAllocation scenario2 [\<lparr>floor = 1, index = 0\<rparr>, \<lparr>floor = 1, index = 2\<rparr>]
     = (None, withBooked scenario2 [\<lparr>floor = 1, index = 0\<rparr>, \<lparr>floor = 1, index = 2\<rparr>])
   \<and> fst (applyAllocation scenario2 [\<lparr>floor = 1, index = 2\<rparr>, \<lparr>floor = 1, index = 10\<rparr>]) = Some TypeError"
proof -
  have "list_all (\<lambda>r. roomAt scenario2 r \<noteq> None) [\<lparr>floor = 1, index = 0\<rparr>, \<lparr>floor = 1, index = 2\<rparr>]"
    by code_simp
  then have a: "\<forall>r\<in>set [\<lparr>floor = 1, index = 0\<rparr>, \<lparr>floor = 1, index = 2\<rparr>]. roomAt scenario2 r \<noteq> None"
    unfolding list_all_iff .
  have "roomAt scenario2 \<lparr>floor = 1, index = 10\<rparr> = None" by code_simp
  then have b: "\<exists>r\<in>set [\<lparr>floor = 1, index = 2\<rparr>, \<lparr>floor = 1, index = 10\<rparr>]. roomAt scenario2 r = None"
    by simp
  from a b
    commit_unchecked [of "[\<lparr>floor = 1, index = 0\<rparr>, \<lparr>floor = 1, index = 2\<rparr>]" scenario2]
    commit_unchecked [of "[\<lparr>floor = 1, index = 2\<rparr>, \<lparr>floor = 1, index = 10\<rparr>]" scenario2]
  show ?thesis by blast
qed

text \<open>
  C4: on a well-formed inventory, for a request of 1 to 5 rooms, when \<open>fl\<close> is the lowest
  floor with at least that many available rooms, the allocation refers to the first
  \<open>num\<close> available rooms of floor \<open>fl\<close> by ascending number, whatever the higher floors hold.
\<close>

theorem same_floor_first_fit:
  assumes "wellFormed rooms" "1 \<le> num" "num \<le> 5"
    and "1 \<le> fl" "fl \<le> 10" "num \<le> int (availableCount rooms fl)"
    and "\<forall>g\<in>{1..<fl}. int (availableCount rooms g) < num"
  shows "\<exists>sel. findBestAllocation rooms num = Inr sel
           \<and> map (resolve rooms) sel
               = map (\<lambda>rm. (fl, Some rm)) (take (nat num) (sort_key number (availableRooms rooms fl)))"
proof -
  from wellFormed_Some [OF assms(1,4,5)] obtain rs where rs: "rooms fl = Some rs" "distinct (map number rs)"
    by blast
  let ?xs = "take (nat num) (sort_key number (availableRooms rooms fl))"
  have "findBestAllocation rooms num = Inr (map (mkRef fl rs) ?xs)"
    using tier1 [OF wellFormed_present [OF assms(1)] assms(4-7), of js_sort js_sort] assms(2)
    by (simp add: findBestAllocation_def js_sort_number slice_take roomsOf_def rs)
  moreover have "set ?xs \<subseteq> set rs"
    using set_take_subset [of "nat num" "sort_key number (availableRooms rooms fl)"]
    by (auto simp: availableRooms_def roomsOf_def rs unbooked_def)
  from resolve_map_mkRef [of rooms fl rs, OF rs this]
  have "map (resolve rooms) (map (mkRef fl rs) ?xs) = map (\<lambda>rm. (fl, Some rm)) ?xs" .
  ultimately show ?thesis by blast
qed

theorem same_floor_first_fit_witness:
  "wellFormed firstFitExample
   \<and> map (availableCount firstFitExample) [1, 2, 3] = [2, 5, 3]
   \<and> (\<exists>sel. findBestAllocation firstFitExample 3 = Inr sel
         \<and> map (resolve firstFitExample) sel
             = [(2, Some \<lparr>number = 201, booked = False\<rparr>), (2, Some \<lparr>number = 203, booked = False\<rparr>),
                (2, Some \<lparr>number = 205, booked = False\<rparr>)])"
proof -
  have h1: "wellFormed firstFitExample" by code_simp
  have h2: "(1::int) \<le> 3" "(3::int) \<le> 5" "(1::nat) \<le> 2" "(2::nat) \<le> 10" by simp_all
  have h3: "3 \<le> int (availableCount firstFitExample 2)" by code_simp
  have "list_all (\<lambda>g. int (availableCount firstFitExample g) < 3) [1..<2]" by code_simp
  then have h4: "\<forall>g\<in>{1..<2}. int (availableCount firstFitExample g) < 3"
    by (simp only: ball_below)
  have c: "map (availableCount firstFitExample) [1, 2, 3] = [2, 5, 3]" by code_simp
  have e: "map (\<lambda>rm. (2::nat, Some rm)) (take (nat 3) (sort_key number (availableRooms firstFitExample 2)))
         = [(2, Some \<lparr>number = 201, booked = False\<rparr>), (2, Some \<lparr>number = 203, booked = False\<rparr>),
            (2, Some \<lparr>number = 205, booked = False\<rparr>)]"
    by code_simp
  from same_floor_first_fit [OF h1 h2 h3 h4] h1 c show ?thesis
    unfolding e by blast
qed

text \<open>
  C3: on an inventory whose floors list their rooms by ascending number, for a request of
  1 to 5 rooms, when no floor has that many available rooms and the property has, the
  allocation has exactly \<open>num\<close> entries and refers to the rooms of \<^const>\<open>specCrossFloor\<close>:
  the floors are ranked by available count descending, ties by lower floor first, and each
  floor's available rooms are taken by ascending number until \<open>num\<close> rooms are reached.
\<close>

theorem cross_floor_ranked:
  assumes "ascendingFloors rooms" "1 \<le> num" "num \<le> 5"
    and "\<forall>g\<in>{1..10}. int (availableCount rooms g) < num"
    and "num \<le> int (totalAvailable rooms)"
  shows "(\<exists>sel. findBestAllocation rooms num = Inr sel
            \<and> length sel = nat num
            \<and> map (resolve rooms) sel = map (\<lambda>(fl, rm). (fl, Some rm)) (specCrossFloor rooms num))
       \<and> mset (specRanking rooms) = mset [1..<11]
       \<and> sorted_wrt (\<lambda>a b. availableCount rooms a > availableCount rooms b
                          \<or> (availableCount rooms a = availableCount rooms b \<and> a < b))
           (specRanking rooms)"
proof -
  have wf: "wellFormed rooms" by (rule ascending_wellFormed [OF assms(1)])
  let ?all = "concat (map (floorRefs rooms) (specRanking rooms))"
  have res: "findBestAllocation rooms num = Inr (take (nat num) ?all)"
    unfolding findBestAllocation_def
    by (rule tier2 [OF wellFormed_present [OF wf] assms(4) js_sort_stable_floors])
  have len: "length (take (nat num) ?all) = nat num"
    using assms(2,5) by (simp add: length_all_refs)
  have eq: "map (\<lambda>fl. map (Pair fl) (sort_key number (availableRooms rooms fl))) (specRanking rooms)
      = map (\<lambda>fl. map (Pair fl) (availableRooms rooms fl)) (specRanking rooms)"
    by (rule map_cong) (simp_all add: set_specRanking ascending_sorted [OF assms(1)])
  have "map (\<lambda>(fl, rm). (fl, Some rm)) (specCrossFloor rooms num)
      = take (nat num) (map (resolve rooms) ?all)"
    unfolding specCrossFloor_def eq
    using resolve_all_refs [OF wf, of "specRanking rooms"]
    by (simp add: take_map set_specRanking)
  then have "map (resolve rooms) (take (nat num) ?all)
      = map (\<lambda>(fl, rm). (fl, Some rm)) (specCrossFloor rooms num)"
    by (simp add: take_map)
  with res len have "\<exists>sel. findBestAllocation rooms num = Inr sel
            \<and> length sel = nat num
            \<and> map (resolve rooms) sel = map (\<lambda>(fl, rm). (fl, Some rm)) (specCrossFloor rooms num)"
    by blast
  moreover have "mset (specRanking rooms) = mset [1..<11]"
    by (simp add: specRanking_def)
  ultimately show ?thesis using specRanking_order [of rooms] by blast
qed

theorem cross_floor_ranked_witness:
  "ascendingFloors crossExample
   \<and> list_all (\<lambda>g. int (availableCount crossExample g) < 5) [1..<11]
   \<and> 5 \<le> int (totalAvailable crossExample)
   \<and> specRanking crossExample = [3, 4, 1, 2, 10, 5, 6, 7, 8, 9]
   \<and> (\<exists>sel. findBestAllocation crossExample 5 = Inr sel
         \<and> length sel = 5
         \<and> map (resolve crossExample) sel
             = [(3, Some \<lparr>number = 301, booked = False\<rparr>), (3, Some \<lparr>number = 302, booked = False\<rparr>),
                (3, Some \<lparr>number = 303, booked = False\<rparr>), (4, Some \<lparr>number = 401, booked = False\<rparr>),
                (4, Some \<lparr>number = 402, booked = False\<rparr>)])"
proof -
  have h1: "ascendingFloors crossExample" by code_simp
  have h2: "(1::int) \<le> 5" "(5::int) \<le> 5" by simp_all
  have l: "list_all (\<lambda>g. int (availableCount crossExample g) < 5) [1..<11]" by code_simp
  then have h3: "\<forall>g\<in>{1..10}. int (availableCount crossExample g) < 5"
    by (simp only: ball_floors)
  have h4: "5 \<le> int (totalAvailable crossExample)" by code_simp
  have r: "specRanking crossExample = [3, 4, 1, 2, 10, 5, 6, 7, 8, 9]" by code_simp
  have e: "map (\<lambda>(fl, rm). (fl, Some rm)) (specCrossFloor crossExample 5)
         = [(3, Some \<lparr>number = 301, booked = False\<rparr>), (3, Some \<lparr>number = 302, booked = False\<rparr>),
            (3, Some \<lparr>number = 303, booked = False\<rparr>), (4, Some \<lparr>number = 401, booked = False\<rparr>),
            (4, Some \<lparr>number = 402, booked = False\<rparr>)]"
    by code_simp
  have n: "nat 5 = 5" by simp
  from cross_floor_ranked [OF h1 h2 h3 h4] h1 l h4 r show ?thesis
    unfolding e n by blast
qed

text \<open>
  C5: on a well-formed inventory, every entry of the allocation refers to a room of one of
  the ten floors that exists and is not booked, no room is referred to twice, and applying
  the allocation to the same inventory raises nothing.
\<close>

theorem selection_sound:
  assumes "wellFormed rooms"
  shows "\<exists>sel. findBestAllocation rooms num = Inr sel
           \<and> (\<forall>r\<in>set sel. floor r \<in> {1..10} \<and> (\<exists>rm. roomAt rooms r = Some rm \<and> \<not> booked rm))
           \<and> distinct (map (resolve rooms) sel)
           \<and> fst (applyAllocation rooms sel) = None"
proof (cases "\<exists>g\<in>{1..10}. num \<le> int (availableCount rooms g)")
  case True
  from least_floor [OF this] obtain fl where fl: "1 \<le> fl" "fl \<le> 10" "num \<le> int (availableCount rooms fl)"
    "\<forall>g\<in>{1..<fl}. int (availableCount rooms g) < num"
    by blast
  from wellFormed_Some [OF assms fl(1,2)] obtain rs where rs: "rooms fl = Some rs" "distinct (map number rs)"
    by blast
  let ?sorted = "sort_key number (availableRooms rooms fl)"
  from slice_is_take [of ?sorted num] obtain k where k: "slice ?sorted 0 num = take k ?sorted" ..
  let ?sel = "map (mkRef fl rs) (take k ?sorted)"
  let ?P = "map (Pair fl) (take k ?sorted)"
  have res: "findBestAllocation rooms num = Inr ?sel"
    using tier1 [OF wellFormed_present [OF assms] fl, of js_sort js_sort] k
    by (simp add: findBestAllocation_def js_sort_number roomsOf_def rs)
  have sub: "set (take k ?sorted) \<subseteq> set (availableRooms rooms fl)"
    using set_take_subset [of k ?sorted] by simp
  then have "set (take k ?sorted) \<subseteq> set rs"
    by (auto simp: availableRooms_def roomsOf_def rs unbooked_def)
  from resolve_map_mkRef [of rooms fl rs, OF rs this]
  have eq: "map (resolve rooms) ?sel = map (\<lambda>(fl, rm). (fl, Some rm)) ?P" by simp
  have "distinct (take k ?sorted)"
    using available_distinct [OF assms fl(1,2)] by simp
  then have dist: "distinct ?P" by (simp add: distinct_map inj_on_def)
  have mem: "\<forall>(fl, rm)\<in>set ?P. fl \<in> {1..10} \<and> \<not> booked rm"
    using sub fl(1,2) available_unbooked [of _ rooms fl] by auto
  from good_selection [OF eq dist mem] res show ?thesis by blast
next
  case False
  then have small: "\<forall>g\<in>{1..10}. int (availableCount rooms g) < num" by auto
  let ?all = "concat (map (floorRefs rooms) (specRanking rooms))"
  let ?pairs = "concat (map (\<lambda>fl. map (Pair fl) (availableRooms rooms fl)) (specRanking rooms))"
  have res: "findBestAllocation rooms num = Inr (take (nat num) ?all)"
    unfolding findBestAllocation_def
    by (rule tier2 [OF wellFormed_present [OF assms] small js_sort_stable_floors])
  have eq: "map (resolve rooms) (take (nat num) ?all) = map (\<lambda>(fl, rm). (fl, Some rm)) (take (nat num) ?pairs)"
    unfolding take_map [symmetric]
    using resolve_all_refs [OF assms, of "specRanking rooms"]
    by (simp add: set_specRanking)
  have "distinct ?pairs"
    by (rule distinct_pairs [OF distinct_specRanking])
       (simp add: set_specRanking available_distinct [OF assms])
  then have dist: "distinct (take (nat num) ?pairs)" by simp
  have "\<forall>(fl, rm)\<in>set ?pairs. fl \<in> {1..10} \<and> \<not> booked rm"
    using available_unbooked by (auto simp: set_specRanking)
  then have mem: "\<forall>(fl, rm)\<in>set (take (nat num) ?pairs). fl \<in> {1..10} \<and> \<not> booked rm"
    using set_take_subset [of "nat num" ?pairs] by blast
  from good_selection [OF eq dist mem] res show ?thesis by blast
qed

theorem selection_sound_witness:
  "wellFormed crossExample
   \<and> findBestAllocation crossExample 5
       = Inr [\<lparr>floor = 3, index = 0\<rparr>, \<lparr>floor = 3, index = 1\<rparr>, \<lparr>floor = 3, index = 2\<rparr>,
              \<lparr>floor = 4, index = 0\<rparr>, \<lparr>floor = 4, index = 1\<rparr>]
   \<and> distinct (map (resolve crossExample)
        [\<lparr>floor = 3, index = 0\<rparr>, \<lparr>floor = 3, index = 1\<rparr>, \<lparr>floor = 3, index = 2\<rparr>,
         \<lparr>floor = 4, index = 0\<rparr>, \<lparr>floor = 4, index = 1\<rparr>])
   \<and> fst (applyAllocation crossExample
        [\<lparr>floor = 3, index = 0\<rparr>, \<lparr>floor = 3, index = 1\<rparr>, \<lparr>floor = 3, index = 2\<rparr>,
         \<lparr>floor = 4, index = 0\<rparr>, \<lparr>floor = 4, index = 1\<rparr>]) = None"
proof -
  have h: "wellFormed crossExample" by code_simp
  have e: "findBestAllocation crossExample 5
       = Inr [\<lparr>floor = 3, index = 0\<rparr>, \<lparr>floor = 3, index = 1\<rparr>, \<lparr>floor = 3, index = 2\<rparr>,
              \<lparr>floor = 4, index = 0\<rparr>, \<lparr>floor = 4, index = 1\<rparr>]"
    by code_simp
  from selection_sound [OF h, of 5] h e show ?thesis by auto
qed

text \<open>
  C6: on an inventory that has the ten floors, for every request of at least one room, the
  allocation the routine returns has as many entries as the smaller of the request and the
  number of available rooms of the property; when the property has fewer available rooms
  than requested, the allocation has one entry for every available room of every floor.
\<close>

theorem selection_length:
  assumes "floorsPresent rooms" "1 \<le> num"
  shows "\<exists>sel. findBestAllocation rooms num = Inr sel
           \<and> int (length sel) = min num (int (totalAvailable rooms))
           \<and> (int (totalAvailable rooms) < num \<longrightarrow>
                sel = concat (map (floorRefs rooms) (specRanking rooms)))"
proof (cases "\<exists>g\<in>{1..10}. num \<le> int (availableCount rooms g)")
  case True
  from least_floor [OF this] obtain fl where fl: "1 \<le> fl" "fl \<le> 10" "num \<le> int (availableCount rooms fl)"
    "\<forall>g\<in>{1..<fl}. int (availableCount rooms g) < num"
    by blast
  let ?sel = "map (mkRef fl (roomsOf rooms fl)) (slice (js_sort cmpNumber (availableRooms rooms fl)) 0 num)"
  have res: "findBestAllocation rooms num = Inr ?sel"
    unfolding findBestAllocation_def by (rule tier1 [OF assms(1) fl])
  have "length (js_sort cmpNumber (availableRooms rooms fl)) = availableCount rooms fl"
    by (simp add: js_sort_number availableCount_length)
  with fl(3) assms(2) have len: "int (length ?sel) = num"
    by (simp add: slice_take)
  from availableCount_le_total [OF fl(1,2), of rooms] fl(3)
  have "num \<le> int (totalAvailable rooms)" by simp
  with res len show ?thesis by simp
next
  case False
  then have small: "\<forall>g\<in>{1..10}. int (availableCount rooms g) < num" by auto
  let ?all = "concat (map (floorRefs rooms) (specRanking rooms))"
  have res: "findBestAllocation rooms num = Inr (take (nat num) ?all)"
    unfolding findBestAllocation_def by (rule tier2 [OF assms(1) small js_sort_stable_floors])
  have "int (length (take (nat num) ?all)) = min num (int (totalAvailable rooms))"
    using assms(2) by (auto simp add: length_all_refs min_def)
  moreover have "int (totalAvailable rooms) < num \<longrightarrow> take (nat num) ?all = ?all"
    by (simp add: length_all_refs)
  ultimately show ?thesis using res by simp
qed

theorem selection_length_witness:
  "floorsPresent almostFull
   \<and> totalAvailable almostFull = 2
   \<and> (\<exists>sel. findBestAllocation almostFull 3 = Inr sel
         \<and> int (length sel) = 2
         \<and> sel = [\<lparr>floor = 1, index = 0\<rparr>, \<lparr>floor = 1, index = 1\<rparr>])"
proof -
  have h1: "floorsPresent almostFull" by code_simp
  have h2: "(1::int) \<le> 3" by simp
  have t: "totalAvailable almostFull = 2" by code_simp
  have e: "concat (map (floorRefs almostFull) (specRanking almostFull))
         = [\<lparr>floor = 1, index = 0\<rparr>, \<lparr>floor = 1, index = 1\<rparr>]"
    by code_simp
  from selection_length [OF h1 h2] h1 show ?thesis
    unfolding t e by simp
qed

text \<open>
  C10: the allocation does not depend on how the engine sorts. Whatever implementations
  of \<^verbatim>\<open>sort\<close> two invocations run on, as long as each sorts by the comparator it is
  given and keeps equal elements in order, both invocations return the same result on the
  same inventory and count: the same entries in the same order, or the same exception.
\<close>

theorem allocation_deterministic:
  assumes "stableSort sR cmpNumber" "stableSort sF (cmpFloors rooms)"
    and "stableSort sR' cmpNumber" "stableSort sF' (cmpFloors rooms)"
  shows "findBestAllocationWith sR sF rooms num = findBestAllocationWith sR' sF' rooms num"
proof -
  have a: "sR cmpNumber = sR' cmpNumber"
    by (rule ext) (simp add: stableSort_number [OF assms(1)] stableSort_number [OF assms(3)])
  have b: "sameFloor sR rooms num [1..<11] = sameFloor sR' rooms num [1..<11]"
    using a by (rule sameFloor_cong)
  have c: "sF (cmpFloors rooms) = sF' (cmpFloors rooms)"
    by (rule ext) (simp add: stableSort_floors [OF assms(2)] stableSort_floors [OF assms(4)])
  show ?thesis unfolding findBestAllocationWith_def b c ..
qed

theorem allocation_deterministic_witness:
  "stableSort js_sort cmpNumber \<and> stableSort js_sort (cmpFloors crossExample)
   \<and> stableSort insertionSort cmpNumber \<and> stableSort insertionSort (cmpFloors crossExample)
   \<and> findBestAllocationWith insertionSort insertionSort crossExample 5 = findBestAllocation crossExample 5
   \<and> findBestAllocationWith insertionSort insertionSort crossExample 5
       = Inr [\<lparr>floor = 3, index = 0\<rparr>, \<lparr>floor = 3, index = 1\<rparr>, \<lparr>floor = 3, index = 2\<rparr>,
              \<lparr>floor = 4, index = 0\<rparr>, \<lparr>floor = 4, index = 1\<rparr>]"
proof -
  have e: "findBestAllocationWith insertionSort insertionSort crossExample 5
       = Inr [\<lparr>floor = 3, index = 0\<rparr>, \<lparr>floor = 3, index = 1\<rparr>, \<lparr>floor = 3, index = 2\<rparr>,
              \<lparr>floor = 4, index = 0\<rparr>, \<lparr>floor = 4, index = 1\<rparr>]"
    by code_simp
  from allocation_deterministic [OF insertionSort_stable_number insertionSort_stable_floors
      js_sort_stable_number js_sort_stable_floors, of crossExample 5]
    insertionSort_stable_number insertionSort_stable_floors [of crossExample]
    js_sort_stable_number js_sort_stable_floors [of crossExample] e
  show ?thesis by (simp add: findBestAllocation_def)
qed

end
